theory Spec2Isabelle
  imports Main
begin

section \<open>Data model of the reactive video processor\<close>

text \<open>
  Python \<open>bytes\<close> values are lists of 8-bit values, which is what a HOL \<open>string\<close>
  (a list of \<open>char\<close>) is. Python \<open>int\<close> is unbounded, so \<open>frame_id\<close> is an
  \<open>int\<close>. Wall-clock readings (\<open>time.time()\<close>) are opaque to every function
  below except for one subtraction; they are integers counting clock ticks and
  are supplied to the model from outside, since reading the clock is an effect.
\<close>

type_synonym bytes = string
type_synonym time = int

record VideoFrame =
  frame_id :: int
  data :: bytes
  timestamp :: time
  metadata :: "(string \<times> string) list"

record ProcessedFrame =
  p_frame_id :: int
  processed_data :: bytes
  processing_time :: time
  original_timestamp :: time

text \<open>
  The exceptions that the modelled code can meet. \<open>UnicodeDecodeError\<close> comes
  from \<open>data.decode()\<close>, \<open>ValueError\<close> from the constructors of the semaphore and
  of the thread pool; \<open>SinkError\<close> stands for an exception of a subclass of
  \<open>Exception\<close> raised by a replacement of the placeholder sink. The other three
  are what such a sink can raise outside of \<open>Exception\<close>: \<open>asyncio.CancelledError\<close>,
  \<open>SystemExit\<close> and \<open>KeyboardInterrupt\<close> derive from \<open>BaseException\<close> only.
  \<open>is_Exception e\<close> is \<open>isinstance(e, Exception)\<close>, which is also what
  \<open>except Exception\<close> tests.
\<close>

datatype error = UnicodeDecodeError | ValueError | SinkError string
  | CancelledError | SystemExit | KeyboardInterrupt

fun is_Exception :: "error \<Rightarrow> bool" where
  "is_Exception UnicodeDecodeError = True"
| "is_Exception ValueError = True"
| "is_Exception (SinkError msg) = True"
| "is_Exception CancelledError = False"
| "is_Exception SystemExit = False"
| "is_Exception KeyboardInterrupt = False"

text \<open>
  A task of the event loop that ends with \<open>SystemExit\<close> or \<open>KeyboardInterrupt\<close>
  does not keep the exception: the loop raises it again and stops.
\<close>

fun escapes_loop :: "error \<Rightarrow> bool" where
  "escapes_loop SystemExit = True"
| "escapes_loop KeyboardInterrupt = True"
| "escapes_loop UnicodeDecodeError = False"
| "escapes_loop ValueError = False"
| "escapes_loop (SinkError msg) = False"
| "escapes_loop CancelledError = False"

section \<open>The frame source\<close>

text \<open>\<open>str(n)\<close> for a Python integer: decimal digits, a minus sign when negative.\<close>

fun str_nat :: "nat \<Rightarrow> string" where
  "str_nat n = (if n < 10 then [char_of (48 + n)]
                else str_nat (n div 10) @ [char_of (48 + n mod 10)])"

declare str_nat.simps [simp del]

definition str_int :: "int \<Rightarrow> string" where
  "str_int i = (if i < 0 then CHR ''-'' # str_nat (nat (- i)) else str_nat (nat i))"

text \<open>
  \<open>create_video_stream\<close>: the generator runs \<open>for frame_id in range(100)\<close> and yields
  one frame per iteration. The model is the list of the frames it yields, in
  order; \<open>clock i\<close> is the reading of \<open>time.time()\<close> in iteration \<open>i\<close>.
\<close>

definition make_frame :: "(nat \<Rightarrow> time) \<Rightarrow> string \<Rightarrow> nat \<Rightarrow> VideoFrame" where
  "make_frame clock video_source i =
     \<lparr> frame_id = int i,
       data = ''frame_data_'' @ str_int (int i),
       timestamp = clock i,
       metadata = [(''source'', video_source), (''format'', ''h264'')] \<rparr>"

definition create_video_stream :: "(nat \<Rightarrow> time) \<Rightarrow> string \<Rightarrow> VideoFrame list" where
  "create_video_stream clock video_source = map (make_frame clock video_source) [0..<100]"

section \<open>The stream registry of the HTTP layer\<close>

record stream_info =
  source :: "string option"
  start_time :: time
  status :: string

record VideoStreamer =
  active_streams :: "string \<rightharpoonup> stream_info"

text \<open>
  \<open>start_stream\<close> and \<open>stop_stream\<close> run under the lock, so each is one atomic
  step on the registry. They return the flag and the registry afterwards;
  \<open>now\<close> is the reading of \<open>datetime.now()\<close>.
\<close>

definition start_stream :: "time \<Rightarrow> string \<Rightarrow> string option \<Rightarrow> VideoStreamer \<Rightarrow> bool \<times> VideoStreamer" where
  "start_stream now stream_id src s =
     (if active_streams s stream_id = None
      then (True, s\<lparr>active_streams := (active_streams s)(stream_id \<mapsto>
              \<lparr> source = src, start_time = now, status = ''active'' \<rparr>)\<rparr>)
      else (False, s))"

definition stop_stream :: "string \<Rightarrow> VideoStreamer \<Rightarrow> bool \<times> VideoStreamer" where
  "stop_stream stream_id s =
     (if active_streams s stream_id \<noteq> None
      then (True, s\<lparr>active_streams := (active_streams s)(stream_id := None)\<rparr>)
      else (False, s))"

section \<open>Per-element processing\<close>

text \<open>
  \<open>_cpu_intensive_processing\<close> returns \<open>f"processed_{data.decode()}".encode()\<close>.
  \<open>bytes.decode()\<close> is strict UTF-8: it raises \<open>UnicodeDecodeError\<close> unless the
  bytes are well-formed UTF-8 (no overlong forms, no surrogates, nothing above
  U+10FFFF). On well-formed input decoding followed by encoding gives the same
  bytes back, so the result is the ASCII prefix followed by the payload.
\<close>

definition cont :: "char \<Rightarrow> bool" where
  "cont c = (128 \<le> (of_char c :: nat) \<and> (of_char c :: nat) \<le> 191)"

definition second3 :: "nat \<Rightarrow> char \<Rightarrow> bool" where
  "second3 b c =
     (if b = 224 then 160 \<le> (of_char c :: nat) \<and> (of_char c :: nat) \<le> 191
      else if b = 237 then 128 \<le> (of_char c :: nat) \<and> (of_char c :: nat) \<le> 159
      else cont c)"

definition second4 :: "nat \<Rightarrow> char \<Rightarrow> bool" where
  "second4 b c =
     (if b = 240 then 144 \<le> (of_char c :: nat) \<and> (of_char c :: nat) \<le> 191
      else if b = 244 then 128 \<le> (of_char c :: nat) \<and> (of_char c :: nat) \<le> 143
      else cont c)"

fun utf8_valid :: "bytes \<Rightarrow> bool" where
  "utf8_valid [] = True"
| "utf8_valid (a # rest) =
     (if (of_char a :: nat) < 128 then utf8_valid rest
      else if 194 \<le> (of_char a :: nat) \<and> (of_char a :: nat) \<le> 223 then
        (case rest of c1 # r \<Rightarrow> cont c1 \<and> utf8_valid r | _ \<Rightarrow> False)
      else if 224 \<le> (of_char a :: nat) \<and> (of_char a :: nat) \<le> 239 then
        (case rest of c1 # c2 # r \<Rightarrow> second3 (of_char a) c1 \<and> cont c2 \<and> utf8_valid r
                    | _ \<Rightarrow> False)
      else if 240 \<le> (of_char a :: nat) \<and> (of_char a :: nat) \<le> 244 then
        (case rest of c1 # c2 # c3 # r \<Rightarrow>
                        second4 (of_char a) c1 \<and> cont c2 \<and> cont c3 \<and> utf8_valid r
                    | _ \<Rightarrow> False)
      else False)"

definition cpu_intensive_processing :: "bytes \<Rightarrow> error + bytes" where
  "cpu_intensive_processing d =
     (if utf8_valid d then Inr (''processed_'' @ d) else Inl UnicodeDecodeError)"

text \<open>
  \<open>process_frame_async\<close>: inside the semaphore the job runs in the thread pool;
  \<open>elapsed frame\<close> is the difference of the two clock readings around it. An
  exception of the job leaves the \<open>async with\<close> block and reaches the caller.
\<close>

definition process_frame_async :: "(VideoFrame \<Rightarrow> time) \<Rightarrow> VideoFrame \<Rightarrow> error + ProcessedFrame" where
  "process_frame_async elapsed frame =
     (case cpu_intensive_processing (data frame) of
        Inl e \<Rightarrow> Inl e
      | Inr pd \<Rightarrow> Inr \<lparr> p_frame_id = frame_id frame,
                       processed_data = pd,
                       processing_time = elapsed frame,
                       original_timestamp = timestamp frame \<rparr>)"

text \<open>
  \<open>asyncio.gather(*tasks)\<close> returns the results as a list in the order of its
  arguments, whatever the order in which the tasks complete, and raises when a
  task raises. With \<open>return_exceptions=True\<close> the exception of a task, and the
  \<open>CancelledError\<close> of a cancelled task, becomes the result of that task; only
  an exception that stops the event loop (\<open>escapes_loop\<close>) still ends the caller.
  \<open>is_exception_result\<close> is the test \<open>isinstance(r, Exception)\<close> on such a result.
\<close>

fun gather :: "(error + 'a) list \<Rightarrow> error + 'a list" where
  "gather [] = Inr []"
| "gather (r # rs) =
     (case r of
        Inl e \<Rightarrow> Inl e
      | Inr v \<Rightarrow> (case gather rs of Inl e \<Rightarrow> Inl e | Inr vs \<Rightarrow> Inr (v # vs)))"

fun gather_return_exceptions :: "(error + 'a) list \<Rightarrow> error + (error + 'a) list" where
  "gather_return_exceptions [] = Inr []"
| "gather_return_exceptions (r # rs) =
     (case r of
        Inl e \<Rightarrow>
          (if escapes_loop e then Inl e
           else (case gather_return_exceptions rs of
                   Inl e' \<Rightarrow> Inl e' | Inr vs \<Rightarrow> Inr (r # vs)))
      | Inr v \<Rightarrow>
          (case gather_return_exceptions rs of
             Inl e' \<Rightarrow> Inl e' | Inr vs \<Rightarrow> Inr (r # vs)))"

fun is_exception_result :: "error + 'a \<Rightarrow> bool" where
  "is_exception_result (Inl e) = is_Exception e"
| "is_exception_result (Inr v) = False"

fun escaping_result :: "error + 'a \<Rightarrow> bool" where
  "escaping_result (Inl e) = escapes_loop e"
| "escaping_result (Inr v) = False"

section \<open>Stream operators\<close>

fun filter_frames :: "(VideoFrame \<Rightarrow> bool) \<Rightarrow> VideoFrame list \<Rightarrow> VideoFrame list" where
  "filter_frames predicate [] = []"
| "filter_frames predicate (frame # stream) =
     (if predicate frame then frame # filter_frames predicate stream
      else filter_frames predicate stream)"

text \<open>
  \<open>batch_process\<close> is a generator that may raise after having yielded some
  batches, so its result is the list of the batches it yields and the exception
  that ends it, if any. \<open>batch_loop\<close> is the \<open>async for\<close> loop and the flush
  after it, with the accumulator \<open>batch\<close> as an argument; \<open>batch_process\<close> starts it
  with \<open>batch = []\<close>.
\<close>

fun batch_loop :: "(VideoFrame \<Rightarrow> time) \<Rightarrow> int \<Rightarrow> VideoFrame list \<Rightarrow> VideoFrame list
                     \<Rightarrow> ProcessedFrame list list \<times> error option" where
  "batch_loop elapsed batch_size batch [] =
     (if batch \<noteq> [] then
        (case gather (map (process_frame_async elapsed) batch) of
           Inl e \<Rightarrow> ([], Some e)
         | Inr processed_batch \<Rightarrow> ([processed_batch], None))
      else ([], None))"
| "batch_loop elapsed batch_size batch (frame # stream) =
     (if int (length (batch @ [frame])) \<ge> batch_size then
        (case gather (map (process_frame_async elapsed) (batch @ [frame])) of
           Inl e \<Rightarrow> ([], Some e)
         | Inr processed_batch \<Rightarrow>
             (case batch_loop elapsed batch_size [] stream of
                (bs, err) \<Rightarrow> (processed_batch # bs, err)))
      else batch_loop elapsed batch_size (batch @ [frame]) stream)"

definition batch_process :: "(VideoFrame \<Rightarrow> time) \<Rightarrow> VideoFrame list \<Rightarrow> int
                               \<Rightarrow> ProcessedFrame list list \<times> error option" where
  "batch_process elapsed stream batch_size = batch_loop elapsed batch_size [] stream"

text \<open>
  The groups of raw frames that the loop of \<open>batch_process\<close> hands to processing:
  the same loop without the processing. It names "the frames admitted to a
  batch" in the statements below.
\<close>

fun admitted :: "int \<Rightarrow> VideoFrame list \<Rightarrow> VideoFrame list \<Rightarrow> VideoFrame list list" where
  "admitted batch_size batch [] = (if batch \<noteq> [] then [batch] else [])"
| "admitted batch_size batch (frame # stream) =
     (if int (length (batch @ [frame])) \<ge> batch_size
      then (batch @ [frame]) # admitted batch_size [] stream
      else admitted batch_size (batch @ [frame]) stream)"

text \<open>
  The \<open>ProcessedFrame\<close> that \<open>process_frame_async\<close> returns for a frame whose
  payload decodes.
\<close>

definition processed_of :: "(VideoFrame \<Rightarrow> time) \<Rightarrow> VideoFrame \<Rightarrow> ProcessedFrame" where
  "processed_of elapsed frame =
     \<lparr> p_frame_id = frame_id frame,
       processed_data = ''processed_'' @ data frame,
       processing_time = elapsed frame,
       original_timestamp = timestamp frame \<rparr>"

section \<open>Construction\<close>

text \<open>
  \<open>ReactiveVideoStream.__init__\<close> builds \<open>asyncio.Semaphore(max_concurrent_tasks)\<close>,
  which raises \<open>ValueError\<close> for a negative value, and then
  \<open>ThreadPoolExecutor(max_workers=max_concurrent_tasks)\<close>, which raises
  \<open>ValueError\<close> unless the number is positive.
\<close>

text \<open>
  The object keeps the number, the semaphore (its counter, which starts at the
  number) and the thread pool (the number of its workers).
\<close>

record ReactiveVideoStream =
  max_concurrent_tasks :: int
  semaphore :: nat
  executor :: nat

definition ReactiveVideoStream_init :: "int \<Rightarrow> error + ReactiveVideoStream" where
  "ReactiveVideoStream_init k =
     (if k < 0 then Inl ValueError
      else if k \<le> 0 then Inl ValueError
      else Inr \<lparr> max_concurrent_tasks = k, semaphore = nat k, executor = nat k \<rparr>)"

record VideoProcessingPipeline =
  stream_processor :: ReactiveVideoStream
  error_count :: int
  processed_count :: int

definition VideoProcessingPipeline_init :: "error + VideoProcessingPipeline" where
  "VideoProcessingPipeline_init =
     (case ReactiveVideoStream_init 20 of
        Inl e \<Rightarrow> Inl e
      | Inr sp \<Rightarrow> Inr \<lparr> stream_processor = sp, error_count = 0, processed_count = 0 \<rparr>)"

section \<open>Source supervisor and pipeline coordinator\<close>

text \<open>
  The sink \<open>_save_processed_frames\<close> is a placeholder in the source (it sleeps and
  returns, with a comment that the real saving goes there). The supervisor is
  modelled over any sink, so that what its \<open>except\<close> branch does can be stated;
  \<open>save_processed_frames\<close> is the sink of the source, which never fails.
\<close>

type_synonym sink = "ProcessedFrame list \<Rightarrow> string \<Rightarrow> error option"

definition save_processed_frames :: sink where
  "save_processed_frames frames src = None"

text \<open>
  The body of \<open>async for processed_batch in batch_stream\<close>: the counter is
  increased before the sink is called, and an exception of the sink ends the loop.
\<close>

fun consume :: "sink \<Rightarrow> string \<Rightarrow> ProcessedFrame list list \<Rightarrow> VideoProcessingPipeline
                  \<Rightarrow> VideoProcessingPipeline \<times> error option" where
  "consume save video_source [] p = (p, None)"
| "consume save video_source (processed_batch # rest) p =
     (case save processed_batch video_source of
        Some e \<Rightarrow> (p\<lparr>processed_count := processed_count p + int (length processed_batch)\<rparr>, Some e)
      | None \<Rightarrow> consume save video_source rest
                  (p\<lparr>processed_count := processed_count p + int (length processed_batch)\<rparr>))"

text \<open>
  What happens to an exception \<open>e\<close> that leaves the \<open>try\<close> block of
  \<open>_process_single_source\<close>: \<open>except Exception\<close> takes it when it is an
  \<open>Exception\<close>, counts it and raises it again; any other exception passes by the
  branch. In both cases the supervisor ends with \<open>e\<close>.
\<close>

definition except_Exception :: "VideoProcessingPipeline \<Rightarrow> error
                                  \<Rightarrow> VideoProcessingPipeline \<times> (error + unit)" where
  "except_Exception p e =
     (if is_Exception e then (p\<lparr>error_count := error_count p + 1\<rparr>, Inl e) else (p, Inl e))"

text \<open>
  \<open>_process_single_source\<close>: the result is \<open>Inr ()\<close> for a normal return (the
  method returns \<open>None\<close>) and \<open>Inl e\<close> when it ends with the exception \<open>e\<close>. The
  batches are pulled one at a time, so an exception of the sink on a batch comes
  before an exception that \<open>batch_process\<close> would raise later.
\<close>

definition process_single_source ::
  "sink \<Rightarrow> (nat \<Rightarrow> time) \<Rightarrow> (VideoFrame \<Rightarrow> time) \<Rightarrow> string \<Rightarrow> VideoProcessingPipeline
     \<Rightarrow> VideoProcessingPipeline \<times> (error + unit)" where
  "process_single_source save clock elapsed video_source p =
     (let video_stream = create_video_stream clock video_source;
          filtered_stream = filter_frames (\<lambda>frame. frame_id frame mod 2 = 0) video_stream
      in case batch_process elapsed filtered_stream 5 of
           (batches, raised) \<Rightarrow>
             (case consume save video_source batches p of
                (p', Some e) \<Rightarrow> except_Exception p' e
              | (p', None) \<Rightarrow>
                  (case raised of
                     Some e \<Rightarrow> except_Exception p' e
                   | None \<Rightarrow> (p', Inr ()))))"

text \<open>
  Two notions for the statements about the supervisor: the batches that the
  supervisor of a source pulls from \<open>batch_process\<close>, and the first of a list of
  batches that a sink rejects, as its position and the exception raised.
\<close>

definition source_batches :: "(VideoFrame \<Rightarrow> time) \<Rightarrow> (nat \<Rightarrow> time) \<Rightarrow> string
                                \<Rightarrow> ProcessedFrame list list" where
  "source_batches elapsed clock video_source =
     fst (batch_process elapsed
            (filter_frames (\<lambda>frame. frame_id frame mod 2 = 0)
               (create_video_stream clock video_source)) 5)"

fun first_rejected :: "sink \<Rightarrow> string \<Rightarrow> ProcessedFrame list list \<Rightarrow> (nat \<times> error) option" where
  "first_rejected save video_source [] = None"
| "first_rejected save video_source (b # bs) =
     (case save b video_source of
        Some e \<Rightarrow> Some (0, e)
      | None \<Rightarrow> (case first_rejected save video_source bs of
                   None \<Rightarrow> None
                 | Some (k, e) \<Rightarrow> Some (Suc k, e)))"

text \<open>
  The coordinator starts one task per source and gathers them with
  \<open>return_exceptions=True\<close>. The tasks share only the two counters of the
  pipeline object, which they update by additions between suspension points, so
  the counters at the end do not depend on the interleaving; the model runs the
  supervisors one after the other, in the order of \<open>video_sources\<close>.
  \<open>clock src\<close> gives the clock readings of the source \<open>src\<close>, \<open>total_elapsed\<close> is the
  elapsed wall time that the coordinator measures. When a supervisor stops the
  event loop, the coordinator ends with that exception and builds no report;
  how far the other supervisors have come by then depends on the interleaving,
  and the pipeline object returned for this case is the one of the sequential run.
\<close>

fun run_sources ::
  "sink \<Rightarrow> (string \<Rightarrow> nat \<Rightarrow> time) \<Rightarrow> (VideoFrame \<Rightarrow> time) \<Rightarrow> string list \<Rightarrow> VideoProcessingPipeline
     \<Rightarrow> VideoProcessingPipeline \<times> (error + unit) list" where
  "run_sources save clock elapsed [] p = (p, [])"
| "run_sources save clock elapsed (src # srcs) p =
     (case process_single_source save (clock src) elapsed src p of
        (p', r) \<Rightarrow> (case run_sources save clock elapsed srcs p' of
                      (p'', rs) \<Rightarrow> (p'', r # rs)))"

record report =
  total_time :: time
  successful :: nat
  failed :: nat
  total_frames :: int

definition create_processing_pipeline ::
  "sink \<Rightarrow> (string \<Rightarrow> nat \<Rightarrow> time) \<Rightarrow> (VideoFrame \<Rightarrow> time) \<Rightarrow> time \<Rightarrow> string list
     \<Rightarrow> VideoProcessingPipeline \<Rightarrow> VideoProcessingPipeline \<times> (error + report)" where
  "create_processing_pipeline save clock elapsed total_elapsed video_sources p =
     (case run_sources save clock elapsed video_sources p of
        (p', outcomes) \<Rightarrow>
          (case gather_return_exceptions outcomes of
             Inl e \<Rightarrow> (p', Inl e)
           | Inr results \<Rightarrow>
               (let successful_results = filter (\<lambda>r. \<not> is_exception_result r) results;
                    failed_results = filter is_exception_result results
                in (p', Inr \<lparr> total_time = total_elapsed,
                              successful = length successful_results,
                              failed = length failed_results,
                              total_frames = processed_count p' \<rparr>))))"



section \<open>Calls of the per-element processor at run time\<close>

text \<open>
  \<open>process_frame_async\<close> as a coroutine: what it does, in order, between its
  suspension points. \<open>async with self.semaphore\<close> acquires the semaphore of the
  object on entry and releases it on exit, whether the block ends normally or
  by the exception of the job; the block awaits
  \<open>loop.run_in_executor(self.executor, self._cpu_intensive_processing, frame.data)\<close>.
\<close>

datatype instr = SemAcquire | RunInExecutor | SemRelease

definition process_frame_async_body :: "instr list" where
  "process_frame_async_body = [SemAcquire, RunInExecutor, SemRelease]"

text \<open>
  A call in progress: the source on whose behalf \<open>batch_process\<close> made it, its
  frame, the instructions it has still to run, whether its job is running in
  the thread pool at this moment, and what the job has returned or raised once
  it has ended.
\<close>

record call =
  caller :: string
  arg :: VideoFrame
  rest :: "instr list"
  in_executor :: bool
  job :: "(error + bytes) option"

definition new_call :: "string \<Rightarrow> VideoFrame \<Rightarrow> call" where
  "new_call video_source frame =
     \<lparr> caller = video_source, arg = frame, rest = process_frame_async_body,
       in_executor = False, job = None \<rparr>"

text \<open>
  One step of a call, given the counter of the semaphore. \<open>acquire\<close> needs a
  positive counter and decreases it, and is not possible otherwise (the call
  stays suspended); \<open>release\<close> increases it. The job of \<open>run_in_executor\<close>, which
  is \<open>_cpu_intensive_processing\<close> on the payload of the frame, starts with one
  step and ends with another. The thread pool is taken to start every job at
  once: a pool that makes a job wait for a free worker has fewer runs, not more.
\<close>

fun advance :: "nat \<Rightarrow> call \<Rightarrow> (nat \<times> call) option" where
  "advance v c =
     (case rest c of
        [] \<Rightarrow> None
      | SemAcquire # r \<Rightarrow> (if 0 < v then Some (v - 1, c\<lparr>rest := r\<rparr>) else None)
      | RunInExecutor # r \<Rightarrow>
          (if in_executor c
           then Some (v, c\<lparr>rest := r, in_executor := False,
                           job := Some (cpu_intensive_processing (data (arg c)))\<rparr>)
           else Some (v, c\<lparr>in_executor := True\<rparr>))
      | SemRelease # r \<Rightarrow> Some (v + 1, c\<lparr>rest := r\<rparr>))"

text \<open>
  The state of a \<open>ReactiveVideoStream\<close> while the pipeline runs: the counter of
  its semaphore and the calls of \<open>process_frame_async\<close> made on it so far. The
  pipeline has one such object (\<open>stream_processor\<close>), on which the supervisors of
  all sources make their calls. A run is a list of events: a new call, or a
  step of the call at a position.
\<close>

record runtime =
  sem_value :: nat
  calls :: "call list"

datatype event = Call string VideoFrame | Advance nat

fun step :: "event \<Rightarrow> runtime \<Rightarrow> runtime option" where
  "step (Call video_source frame) s = Some (s\<lparr>calls := calls s @ [new_call video_source frame]\<rparr>)"
| "step (Advance i) s =
     (if i < length (calls s) then
        (case advance (sem_value s) (calls s ! i) of
           None \<Rightarrow> None
         | Some (v, c) \<Rightarrow> Some (s\<lparr>sem_value := v, calls := (calls s)[i := c]\<rparr>))
      else None)"

fun run_schedule :: "event list \<Rightarrow> runtime \<Rightarrow> runtime option" where
  "run_schedule [] s = Some s"
| "run_schedule (e # es) s =
     (case step e s of None \<Rightarrow> None | Some s' \<Rightarrow> run_schedule es s')"

definition start :: "ReactiveVideoStream \<Rightarrow> runtime" where
  "start sp = \<lparr> sem_value = semaphore sp, calls = [] \<rparr>"

definition executing :: "runtime \<Rightarrow> nat" where
  "executing s = length (filter in_executor (calls s))"

text \<open>
  A call that holds the semaphore, and the states in which a call of
  \<open>process_frame_async\<close> can be.
\<close>

definition holds :: "call \<Rightarrow> bool" where
  "holds c = (rest c = [RunInExecutor, SemRelease] \<or> rest c = [SemRelease])"

definition call_state :: "call \<Rightarrow> bool" where
  "call_state c =
     (if in_executor c then rest c = [RunInExecutor, SemRelease]
      else rest c \<in> {process_frame_async_body, [RunInExecutor, SemRelease]}
           \<or> (rest c \<in> {[SemRelease], []}
               \<and> job c = Some (cpu_intensive_processing (data (arg c)))))"

section \<open>Concrete inputs\<close>

definition reg0 :: VideoStreamer where
  "reg0 = \<lparr> active_streams = Map.empty \<rparr>"

definition reg1 :: VideoStreamer where
  "reg1 = \<lparr> active_streams =
            [''cam'' \<mapsto> \<lparr> source = Some ''default'', start_time = 7, status = ''active'' \<rparr>] \<rparr>"

definition demo_frame :: "int \<Rightarrow> VideoFrame" where
  "demo_frame i = \<lparr> frame_id = i, data = ''x'', timestamp = 0, metadata = [] \<rparr>"

definition demo_stream :: "VideoFrame list" where
  "demo_stream = map demo_frame [0, 2, 4, 6, 8]"

text \<open>A frame whose payload is the single byte \<open>0xFF\<close>, which is not UTF-8.\<close>

definition bad_frame :: VideoFrame where
  "bad_frame = \<lparr> frame_id = 0, data = [CHR 0xFF], timestamp = 0, metadata = [] \<rparr>"

text \<open>A freshly constructed pipeline.\<close>

definition p0 :: VideoProcessingPipeline where
  "p0 = \<lparr> stream_processor = \<lparr> max_concurrent_tasks = 20, semaphore = 20, executor = 20 \<rparr>,
          error_count = 0, processed_count = 0 \<rparr>"






text \<open>
  A stream processor with one permit, and a run on it with two calls from two
  sources: the call of the second source takes the semaphore and starts its job.
\<close>

definition sp1 :: ReactiveVideoStream where
  "sp1 = \<lparr> max_concurrent_tasks = 1, semaphore = 1, executor = 1 \<rparr>"

definition demo_schedule :: "event list" where
  "demo_schedule =
     [Call ''video_source_0'' (demo_frame 0), Call ''video_source_1'' (demo_frame 2),
      Advance 1, Advance 1]"

section \<open>Lemmas on processing and batching\<close>

lemma process_frame_async_valid:
  "utf8_valid (data f) \<Longrightarrow> process_frame_async el f = Inr (processed_of el f)"
  by (simp add: process_frame_async_def cpu_intensive_processing_def processed_of_def)

lemma process_frame_async_error:
  "process_frame_async el f = Inl e \<Longrightarrow> e = UnicodeDecodeError"
  by (auto simp: process_frame_async_def cpu_intensive_processing_def split: if_splits)

lemma process_frame_async_id:
  "process_frame_async el f = Inr pf \<Longrightarrow> p_frame_id pf = frame_id f"
  by (auto simp: process_frame_async_def cpu_intensive_processing_def split: if_splits)

lemma gather_valid:
  "\<forall>f\<in>set fs. utf8_valid (data f) \<Longrightarrow>
   gather (map (process_frame_async el) fs) = Inr (map (processed_of el) fs)"
  by (induction fs) (simp_all add: process_frame_async_valid)

lemma gather_ids:
  "gather (map (process_frame_async el) fs) = Inr pb \<Longrightarrow> map p_frame_id pb = map frame_id fs"
proof (induction fs arbitrary: pb)
  case Nil
  then show ?case by simp
next
  case (Cons f fs)
  then show ?case
    by (auto split: sum.splits dest: process_frame_async_id)
qed

lemma gather_error:
  "gather (map (process_frame_async el) fs) = Inl e \<Longrightarrow> e = UnicodeDecodeError"
proof (induction fs)
  case Nil
  then show ?case by simp
next
  case (Cons f fs)
  then show ?case
    by (auto split: sum.splits dest: process_frame_async_error)
qed

lemma batch_loop_ids:
  "batch_loop el b acc xs = (bs, err) \<Longrightarrow>
   map (map p_frame_id) bs = take (length bs) (map (map frame_id) (admitted b acc xs))"
proof (induction xs arbitrary: acc bs err)
  case Nil
  then show ?case
    by (auto split: if_splits sum.splits dest: gather_ids)
next
  case (Cons f xs)
  show ?case
  proof (cases "b \<le> int (length (acc @ [f]))")
    case True
    show ?thesis
    proof (cases "gather (map (process_frame_async el) (acc @ [f]))")
      case (Inl e)
      with True Cons.prems show ?thesis by auto
    next
      case (Inr pb)
      obtain bs' err' where rec: "batch_loop el b [] xs = (bs', err')"
        by (cases "batch_loop el b [] xs")
      with True Inr Cons.prems have bs: "bs = pb # bs'" by auto
      from Cons.IH [OF rec] gather_ids [OF Inr] True bs show ?thesis by simp
    qed
  next
    case False
    with Cons.prems have "batch_loop el b (acc @ [f]) xs = (bs, err)" by simp
    from Cons.IH [OF this] False show ?thesis by simp
  qed
qed

lemma batch_loop_error:
  "batch_loop el b acc xs = (bs, Some e) \<Longrightarrow> e = UnicodeDecodeError"
proof (induction xs arbitrary: acc bs)
  case Nil
  then show ?case
    by (auto split: if_splits sum.splits dest: gather_error)
next
  case (Cons f xs)
  show ?case
  proof (cases "b \<le> int (length (acc @ [f]))")
    case True
    show ?thesis
    proof (cases "gather (map (process_frame_async el) (acc @ [f]))")
      case (Inl e')
      with True Cons.prems have "e = e'" by auto
      with gather_error [OF Inl] show ?thesis by simp
    next
      case (Inr pb)
      obtain bs' err' where rec: "batch_loop el b [] xs = (bs', err')"
        by (cases "batch_loop el b [] xs")
      with True Inr Cons.prems have "err' = Some e" by auto
      with rec Cons.IH show ?thesis by blast
    qed
  next
    case False
    with Cons.prems have "batch_loop el b (acc @ [f]) xs = (bs, Some e)" by simp
    then show ?thesis by (rule Cons.IH)
  qed
qed

lemma batch_loop_valid:
  "\<forall>f\<in>set (acc @ xs). utf8_valid (data f) \<Longrightarrow>
   batch_loop el b acc xs = (map (map (processed_of el)) (admitted b acc xs), None)"
proof (induction xs arbitrary: acc)
  case Nil
  then show ?case by (simp add: gather_valid)
next
  case (Cons f xs)
  have v: "\<forall>g\<in>set (acc @ [f]). utf8_valid (data g)" using Cons.prems by auto
  have a: "batch_loop el b [] xs = (map (map (processed_of el)) (admitted b [] xs), None)"
    using Cons.prems by (intro Cons.IH) auto
  have c: "batch_loop el b (acc @ [f]) xs = (map (map (processed_of el)) (admitted b (acc @ [f]) xs), None)"
    using Cons.prems by (intro Cons.IH) auto
  show ?case using a c gather_valid [OF v, of el] by simp
qed

lemma admitted_concat: "concat (admitted b acc xs) = acc @ xs"
  by (induction xs arbitrary: acc) auto

lemma admitted_sorted:
  "sorted_wrt (<) (map frame_id (acc @ xs)) \<Longrightarrow>
   \<forall>g\<in>set (admitted b acc xs). sorted_wrt (<) (map frame_id g)"
proof (induction xs arbitrary: acc)
  case Nil
  then show ?case by simp
next
  case (Cons f xs)
  have s1: "sorted_wrt (<) (map frame_id (acc @ [f]))"
    using Cons.prems by (simp add: sorted_wrt_append)
  have s2: "sorted_wrt (<) (map frame_id ([] @ xs))"
    using Cons.prems by (simp add: sorted_wrt_append)
  have s3: "sorted_wrt (<) (map frame_id ((acc @ [f]) @ xs))"
    using Cons.prems by simp
  show ?case using s1 Cons.IH [OF s2] Cons.IH [OF s3] by simp
qed

lemma div_add_self_Suc: "0 < (m::nat) \<Longrightarrow> (m + n) div m = Suc (n div m)"
  using div_add_self1 [of m n] by simp

lemma admitted_sizes:
  "0 < b \<Longrightarrow> int (length acc) < b \<Longrightarrow>
   map length (admitted b acc xs) =
     replicate ((length acc + length xs) div nat b) (nat b) @
     (if (length acc + length xs) mod nat b = 0 then [] else [(length acc + length xs) mod nat b])"
proof (induction xs arbitrary: acc)
  case Nil
  then show ?case by (cases acc) auto
next
  case (Cons f xs)
  show ?case
  proof (cases "b \<le> int (length (acc @ [f]))")
    case True
    with Cons.prems have eq: "Suc (length acc) = nat b" by auto
    have rec: "map length (admitted b [] xs) =
       replicate (length xs div nat b) (nat b) @
       (if length xs mod nat b = 0 then [] else [length xs mod nat b])"
      using Cons.IH [of "[]"] Cons.prems by simp
    have tot: "length acc + length (f # xs) = nat b + length xs" using eq by simp
    have nz: "0 < nat b" using Cons.prems by simp
    have d: "(nat b + length xs) div nat b = Suc (length xs div nat b)"
      by (rule div_add_self_Suc [OF nz])
    have m: "(nat b + length xs) mod nat b = length xs mod nat b" by simp
    show ?thesis using True rec eq unfolding tot d m by simp
  next
    case False
    then have lt: "int (length (acc @ [f])) < b" by simp
    from Cons.IH [OF Cons.prems(1) lt] False show ?thesis by simp
  qed
qed

lemma admitted_nonpos:
  "b \<le> 0 \<Longrightarrow> admitted b [] xs = map (\<lambda>f. [f]) xs"
  by (induction xs) auto

lemma filter_frames_filter: "filter_frames p xs = filter p xs"
  by (induction xs) auto


lemma demo_valid: "\<forall>f\<in>set demo_stream. utf8_valid (data f)"
  by (simp add: demo_stream_def demo_frame_def)

lemma ceil_div:
  "0 < (m::nat) \<Longrightarrow> (n + m - 1) div m = n div m + (if n mod m = 0 then 0 else 1)"
proof -
  assume m: "0 < m"
  obtain q r where n: "n = q * m + r" and r: "r < m"
    using m by (metis div_mult_mod_eq mod_less_divisor)
  show ?thesis
  proof (cases "r = 0")
    case True
    obtain m' where m': "m = Suc m'" using m by (cases m) auto
    have "n + m - 1 = m' + q * m" using n True m' by simp
    then have "(n + m - 1) div m = (m' + q * m) div m" by simp
    also have "\<dots> = m' div m + q" using m by (simp only: div_mult_self1 [of m m' q])
    also have "m' div m = 0" using m' by simp
    finally have a: "(n + m - 1) div m = q" by simp
    have "n div m = q" using n True m by simp
    moreover have "n mod m = 0" using n True by simp
    ultimately show ?thesis using a by simp
  next
    case False
    then obtain r' where r': "r = Suc r'" by (cases r) auto
    have "n + m - 1 = r' + (Suc q) * m" using n r' by simp
    then have "(n + m - 1) div m = (r' + Suc q * m) div m" by simp
    also have "\<dots> = r' div m + Suc q" using m by (simp only: div_mult_self1 [of m r' "Suc q"] )
    also have "r' div m = 0" using r r' by simp
    finally have a: "(n + m - 1) div m = Suc q" by simp
    have "n div m = q" using n r m by simp
    moreover have "n mod m = r" using n r by simp
    ultimately show ?thesis using a False by simp
  qed
qed

section \<open>Lemmas on the supervisor and the coordinator\<close>

lemma ascii_valid: "\<forall>c\<in>set s. (of_char c :: nat) < 128 \<Longrightarrow> utf8_valid s"
  by (induction s) auto

lemma str_nat_ascii: "\<forall>c\<in>set (str_nat n). (of_char c :: nat) < 128"
proof (induction n rule: str_nat.induct)
  case (1 n)
  show ?case
  proof (cases "n < 10")
    case True
    then show ?thesis by (subst str_nat.simps) simp
  next
    case False
    have "n mod 10 < 10" by simp
    then have "(48 + n mod 10) mod 256 < 128" by simp
    with False 1 show ?thesis by (subst str_nat.simps) simp
  qed
qed

lemma make_frame_valid: "utf8_valid (data (make_frame clock src i))"
proof -
  have "\<forall>c\<in>set (''frame_data_'' @ str_nat i). (of_char c :: nat) < 128"
    using str_nat_ascii [of i] by simp
  then show ?thesis by (simp add: make_frame_def str_int_def ascii_valid del: utf8_valid.simps)
qed

lemma stream_valid:
  "\<forall>f\<in>set (filter_frames p (create_video_stream clock src)). utf8_valid (data f)"
  by (auto simp: filter_frames_filter create_video_stream_def make_frame_valid simp del: utf8_valid.simps)

lemma evens: "filter (\<lambda>i. int i mod 2 = 0) [0..<100] = map (\<lambda>k. 2 * k) [0..<50]"
  by code_simp

lemma filtered_length:
  "length (filter_frames (\<lambda>frame. frame_id frame mod 2 = 0) (create_video_stream clock src)) = 50"
proof -
  have "filter_frames (\<lambda>frame. frame_id frame mod 2 = 0) (create_video_stream clock src)
        = map (make_frame clock src) (filter (\<lambda>i. int i mod 2 = 0) [0..<100])"
    by (simp add: filter_frames_filter create_video_stream_def filter_map comp_def make_frame_def)
  then show ?thesis by (simp add: evens)
qed


lemma pipeline_batches:
  "\<exists>bs. batch_process el (filter_frames (\<lambda>frame. frame_id frame mod 2 = 0)
           (create_video_stream clock src)) 5 = (bs, None)
        \<and> length (concat bs) = 50 \<and> bs \<noteq> []"
proof -
  let ?xs = "filter_frames (\<lambda>frame. frame_id frame mod 2 = 0) (create_video_stream clock src)"
  have v: "\<forall>f\<in>set ([] @ ?xs). utf8_valid (data f)" using stream_valid by simp
  have r: "batch_process el ?xs 5 = (map (map (processed_of el)) (admitted 5 [] ?xs), None)"
    unfolding batch_process_def by (rule batch_loop_valid [OF v])
  have "length (concat (map (map (processed_of el)) (admitted 5 [] ?xs)))
          = length (concat (admitted 5 [] ?xs))"
    by (simp add: length_concat comp_def)
  also have "\<dots> = 50" by (simp add: admitted_concat filtered_length)
  finally have c: "length (concat (map (map (processed_of el)) (admitted 5 [] ?xs))) = 50" .
  then have "map (map (processed_of el)) (admitted 5 [] ?xs) \<noteq> []" by auto
  with r c show ?thesis by blast
qed

lemma source_batches_ok:
  "batch_process el (filter_frames (\<lambda>frame. frame_id frame mod 2 = 0)
      (create_video_stream clock src)) 5 = (source_batches el clock src, None)"
  using pipeline_batches [of el clock src] by (auto simp: source_batches_def)

lemma source_batches_sizes: "map length (source_batches el clock src) = replicate 10 5"
proof -
  let ?xs = "filter_frames (\<lambda>frame. frame_id frame mod 2 = 0) (create_video_stream clock src)"
  have v: "\<forall>f\<in>set ([] @ ?xs). utf8_valid (data f)" using stream_valid by simp
  have r: "batch_process el ?xs 5 = (map (map (processed_of el)) (admitted 5 [] ?xs), None)"
    unfolding batch_process_def by (rule batch_loop_valid [OF v])
  have sz: "map length (admitted 5 [] ?xs) = replicate 10 5"
    using admitted_sizes [of 5 "[]" ?xs] by (simp add: filtered_length)
  show ?thesis unfolding source_batches_def r using sz by (simp add: comp_def)
qed



lemma first_rejected_None:
  "\<forall>b\<in>set bs. save b src = None \<Longrightarrow> first_rejected save src bs = None"
  by (induction bs) auto


lemma first_rejected_bound:
  "first_rejected save src bs = Some (k, e) \<Longrightarrow> k < length bs"
proof (induction bs arbitrary: k)
  case Nil
  then show ?case by simp
next
  case (Cons b bs)
  then show ?case by (auto split: option.splits)
qed

lemma consume_char:
  "consume save src bs p =
     (case first_rejected save src bs of
        None \<Rightarrow> (p\<lparr>processed_count := processed_count p + int (length (concat bs))\<rparr>, None)
      | Some (k, e) \<Rightarrow>
          (p\<lparr>processed_count := processed_count p + int (length (concat (take (Suc k) bs)))\<rparr>,
           Some e))"
proof (induction bs arbitrary: p)
  case Nil
  then show ?case by simp
next
  case (Cons b bs)
  show ?case
  proof (cases "save b src")
    case (Some e)
    then show ?thesis by simp
  next
    case None
    show ?thesis
    proof (cases "first_rejected save src bs")
      case n: None
      with None Cons.IH [of "p\<lparr>processed_count := processed_count p + int (length b)\<rparr>"]
      show ?thesis by simp
    next
      case s: (Some ke)
      obtain k e where ke: "ke = (k, e)" by (cases ke)
      with s None Cons.IH [of "p\<lparr>processed_count := processed_count p + int (length b)\<rparr>"]
      show ?thesis by simp
    qed
  qed
qed

lemma concat_take_uniform:
  "map length bs = replicate n m \<Longrightarrow> j \<le> n \<Longrightarrow> length (concat (take j bs)) = j * m"
proof -
  assume a: "map length bs = replicate n m" and j: "j \<le> n"
  have "length (concat (take j bs)) = sum_list (map length (take j bs))"
    by (simp add: length_concat)
  also have "map length (take j bs) = take j (map length bs)" by (simp add: take_map)
  also have "\<dots> = replicate j m" using a j by (simp add: min_def)
  also have "sum_list (replicate j m) = j * m" by (simp add: sum_list_replicate)
  finally show ?thesis .
qed

lemma source_batches_length: "length (source_batches el clock src) = 10"
  using source_batches_sizes [of el clock src]
  by (metis length_map length_replicate)

lemma process_single_source_char:
  "process_single_source save clock el src p =
     (case first_rejected save src (source_batches el clock src) of
        None \<Rightarrow> (p\<lparr>processed_count := processed_count p + 50\<rparr>, Inr ())
      | Some (k, e) \<Rightarrow>
          except_Exception (p\<lparr>processed_count := processed_count p + 5 * (int k + 1)\<rparr>) e)"
proof -
  let ?bs = "source_batches el clock src"
  have all: "length (concat ?bs) = 50"
    using concat_take_uniform [OF source_batches_sizes, of 10 el clock src]
    by (simp add: source_batches_length)
  show ?thesis
  proof (cases "first_rejected save src ?bs")
    case None
    then show ?thesis
      unfolding process_single_source_def Let_def source_batches_ok
      by (simp add: consume_char all)
  next
    case (Some ke)
    obtain k e where ke: "ke = (k, e)" by (cases ke)
    have "k < 10" using first_rejected_bound [of save src ?bs k e] Some ke
      by (simp add: source_batches_length)
    then have "length (concat (take (Suc k) ?bs)) = Suc k * 5"
      using concat_take_uniform [OF source_batches_sizes, of "Suc k" el clock src] by simp
    then have "int (length (concat (take (Suc k) ?bs))) = 5 * (int k + 1)" by simp
    with Some ke show ?thesis
      unfolding process_single_source_def Let_def source_batches_ok
      by (simp add: consume_char)
  qed
qed




lemma gather_no_escape:
  "list_all (\<lambda>r. \<not> escaping_result r) rs \<Longrightarrow> gather_return_exceptions rs = Inr rs"
proof (induction rs)
  case Nil
  then show ?case by simp
next
  case (Cons r rs)
  then show ?case by (cases r) auto
qed





text \<open>
  With the sink of the source nothing fails: every supervisor counts its 50
  frames and the report shows every source as successful.
\<close>

lemma own_sink_source:
  "process_single_source save_processed_frames clock el src p
     = (p\<lparr>processed_count := processed_count p + 50\<rparr>, Inr ())"
proof -
  have "first_rejected save_processed_frames src (source_batches el clock src) = None"
    by (rule first_rejected_None) (simp add: save_processed_frames_def)
  then show ?thesis by (simp add: process_single_source_char)
qed

lemma own_sink_report:
  "create_processing_pipeline save_processed_frames clock el total_elapsed srcs p
     = (p\<lparr>processed_count := processed_count p + 50 * int (length srcs)\<rparr>,
        Inr \<lparr> total_time = total_elapsed, successful = length srcs, failed = 0,
              total_frames = processed_count p + 50 * int (length srcs) \<rparr>)"
proof -
  have r: "run_sources save_processed_frames clock el srcs q
     = (q\<lparr>processed_count := processed_count q + 50 * int (length srcs)\<rparr>,
        replicate (length srcs) (Inr ()))" for q
    by (induction srcs arbitrary: q) (simp_all add: own_sink_source algebra_simps)
  have g: "gather_return_exceptions (replicate n (Inr ())) = Inr (replicate n (Inr ()))" for n
    by (rule gather_no_escape) (simp add: list_all_iff)
  show ?thesis
    by (simp add: create_processing_pipeline_def r g)
qed

section \<open>Lemmas on calls at run time\<close>

lemma filter_update_gain:
  "i < length xs \<Longrightarrow> \<not> P (xs ! i) \<Longrightarrow> P y \<Longrightarrow>
   length (filter P (xs[i := y])) = Suc (length (filter P xs))"
proof (induction xs arbitrary: i)
  case Nil
  then show ?case by simp
next
  case (Cons x xs)
  then show ?case by (cases i) auto
qed

lemma filter_update_loss:
  "i < length xs \<Longrightarrow> P (xs ! i) \<Longrightarrow> \<not> P y \<Longrightarrow>
   Suc (length (filter P (xs[i := y]))) = length (filter P xs)"
proof (induction xs arbitrary: i)
  case Nil
  then show ?case by simp
next
  case (Cons x xs)
  then show ?case by (cases i) auto
qed

lemma filter_update_same:
  "i < length xs \<Longrightarrow> P (xs ! i) = P y \<Longrightarrow>
   length (filter P (xs[i := y])) = length (filter P xs)"
proof (induction xs arbitrary: i)
  case Nil
  then show ?case by simp
next
  case (Cons x xs)
  then show ?case by (cases i) auto
qed

lemma filter_length_mono:
  "\<forall>x\<in>set xs. P x \<longrightarrow> Q x \<Longrightarrow> length (filter P xs) \<le> length (filter Q xs)"
  by (induction xs) auto

lemma new_call_state: "call_state (new_call src frame) \<and> \<not> holds (new_call src frame)"
  by (simp add: call_state_def holds_def new_call_def process_frame_async_body_def)

lemma advance_call:
  assumes "advance v c = Some (v', c')" and "call_state c"
  shows "call_state c' \<and> v' + (if holds c' then 1 else 0) = v + (if holds c then 1 else 0)"
proof (cases "in_executor c")
  case True
  with assms(2) have r: "rest c = [RunInExecutor, SemRelease]" by (simp add: call_state_def)
  with True assms(1) have "v' = v"
    "c' = c\<lparr>rest := [SemRelease], in_executor := False,
             job := Some (cpu_intensive_processing (data (arg c)))\<rparr>" by auto
  with r show ?thesis by (simp add: call_state_def holds_def)
next
  case False
  with assms(2) have
    "rest c = process_frame_async_body \<or> rest c = [RunInExecutor, SemRelease]
       \<or> (rest c = [SemRelease] \<and> job c = Some (cpu_intensive_processing (data (arg c))))
       \<or> rest c = []"
    by (auto simp: call_state_def)
  then consider (a) "rest c = [SemAcquire, RunInExecutor, SemRelease]"
    | (b) "rest c = [RunInExecutor, SemRelease]"
    | (c) "rest c = [SemRelease]" "job c = Some (cpu_intensive_processing (data (arg c)))"
    | (d) "rest c = []"
    by (auto simp: process_frame_async_body_def)
  then show ?thesis
  proof cases
    case a
    with assms(1) have "0 < v" "v' = v - 1" "c' = c\<lparr>rest := [RunInExecutor, SemRelease]\<rparr>"
      by (auto split: if_splits)
    with a False show ?thesis by (simp add: call_state_def holds_def)
  next
    case b
    with False assms(1) have "v' = v" "c' = c\<lparr>in_executor := True\<rparr>" by auto
    with b show ?thesis by (simp add: call_state_def holds_def)
  next
    case c
    with assms(1) have "v' = v + 1" "c' = c\<lparr>rest := []\<rparr>" by auto
    with c False show ?thesis by (simp add: call_state_def holds_def)
  next
    case d
    with assms(1) show ?thesis by simp
  qed
qed

lemma step_invariant:
  assumes "step e s = Some s'" and "\<forall>c\<in>set (calls s). call_state c"
  shows "(\<forall>c\<in>set (calls s'). call_state c)
         \<and> sem_value s' + length (filter holds (calls s'))
             = sem_value s + length (filter holds (calls s))"
proof (cases e)
  case (Call src frame)
  with assms show ?thesis using new_call_state [of src frame] by auto
next
  case (Advance i)
  with assms(1) obtain v c where i: "i < length (calls s)"
    and a: "advance (sem_value s) (calls s ! i) = Some (v, c)"
    and s': "s' = s\<lparr>sem_value := v, calls := (calls s)[i := c]\<rparr>"
    by (auto split: if_splits option.splits)
  have ci: "call_state (calls s ! i)" using assms(2) i by simp
  from advance_call [OF a ci] have cs: "call_state c"
    and eq: "v + (if holds c then 1 else 0) = sem_value s + (if holds (calls s ! i) then 1 else 0)"
    by simp_all
  have all: "\<forall>d\<in>set (calls s'). call_state d"
  proof
    fix d assume "d \<in> set (calls s')"
    then have "d \<in> insert c (set (calls s))" unfolding s' using set_update_subset_insert by fastforce
    with cs assms(2) show "call_state d" by auto
  qed
  have "v + length (filter holds ((calls s)[i := c])) = sem_value s + length (filter holds (calls s))"
  proof (cases "holds (calls s ! i)")
    case True
    show ?thesis
    proof (cases "holds c")
      case h: True
      with True eq filter_update_same [OF i, of holds c] show ?thesis by simp
    next
      case h: False
      with True eq filter_update_loss [OF i, of holds c] show ?thesis by simp
    qed
  next
    case False
    show ?thesis
    proof (cases "holds c")
      case h: True
      with False eq filter_update_gain [OF i, of holds c] show ?thesis by simp
    next
      case h: False
      with False eq filter_update_same [OF i, of holds c] show ?thesis by simp
    qed
  qed
  with all show ?thesis unfolding s' by simp
qed

lemma run_schedule_invariant:
  "run_schedule es s = Some s' \<Longrightarrow> \<forall>c\<in>set (calls s). call_state c \<Longrightarrow>
   (\<forall>c\<in>set (calls s'). call_state c)
   \<and> sem_value s' + length (filter holds (calls s'))
       = sem_value s + length (filter holds (calls s))"
proof (induction es arbitrary: s)
  case Nil
  then show ?case by simp
next
  case (Cons e es)
  from Cons.prems(1) obtain s1 where a: "step e s = Some s1" and b: "run_schedule es s1 = Some s'"
    by (auto split: option.splits)
  from step_invariant [OF a Cons.prems(2)] Cons.IH [OF b] show ?case by simp
qed

text \<open>
  A call that has run to its end carries what \<open>_cpu_intensive_processing\<close> gives
  on the payload of its frame, which is what \<open>process_frame_async\<close> builds its
  result from.
\<close>

lemma finished_call_result:
  assumes "run_schedule es (start sp) = Some s" and "c \<in> set (calls s)" and "rest c = []"
  shows "job c = Some (cpu_intensive_processing (data (arg c)))"
proof -
  have "\<forall>c\<in>set (calls (start sp)). call_state c" by (simp add: start_def)
  from run_schedule_invariant [OF assms(1) this] assms(2) have "call_state c" by simp
  with assms(3) show ?thesis
    by (auto simp: call_state_def process_frame_async_body_def split: if_splits)
qed

lemma executing_le_holding:
  "\<forall>c\<in>set (calls s). call_state c \<Longrightarrow> executing s \<le> length (filter holds (calls s))"
  unfolding executing_def
  by (rule filter_length_mono) (auto simp: call_state_def holds_def)

lemma concurrency_bound:
  assumes "ReactiveVideoStream_init k = Inr sp"
    and "run_schedule es (start sp) = Some s"
  shows "int (executing s) \<le> k"
proof -
  from assms(1) have k: "0 < k" and sp: "semaphore sp = nat k"
    by (auto simp: ReactiveVideoStream_init_def split: if_splits)
  have "\<forall>c\<in>set (calls (start sp)). call_state c" by (simp add: start_def)
  from run_schedule_invariant [OF assms(2) this]
  have inv: "\<forall>c\<in>set (calls s). call_state c"
    and eq: "sem_value s + length (filter holds (calls s)) = nat k"
    by (simp_all add: start_def sp)
  from executing_le_holding [OF inv] eq have "executing s \<le> nat k" by simp
  with k sp show ?thesis by simp
qed

lemma init_p0: "VideoProcessingPipeline_init = Inr p0"
  by (simp add: VideoProcessingPipeline_init_def ReactiveVideoStream_init_def p0_def)

section \<open>The frame source\<close>

text \<open>
  Claim C7, as it holds on the code. \<open>create_video_stream\<close> takes a source
  identifier and nothing else: the number of frames is the constant of
  \<open>range(100)\<close>. For every source identifier and every clock it yields exactly
  100 frames, with the ids 0, 1, ..., 99 in this order. The model is a total
  function, so the generator ends after the hundredth frame and raises nothing.
\<close>

theorem create_video_stream_fixed_count:
  "length (create_video_stream clock video_source) = 100
   \<and> map frame_id (create_video_stream clock video_source) = map int [0..<100]"
  by (simp add: create_video_stream_def make_frame_def comp_def)

text \<open>
  Claim C7 as stated, for the element count 10: the ids of the frames of the
  source \<open>video_source_0\<close> are not 0, ..., 9 (there are 100 of them).
\<close>

theorem create_video_stream_count_counterexample:
  "map frame_id (create_video_stream (\<lambda>i. 0) ''video_source_0'') \<noteq> map int [0..<10]"
proof
  assume "map frame_id (create_video_stream (\<lambda>i. 0) ''video_source_0'') = map int [0..<10]"
  then have "length (map frame_id (create_video_stream (\<lambda>i. 0) ''video_source_0''))
               = length (map int [0..<10])"
    by simp
  then show False by (simp add: create_video_stream_def)
qed

section \<open>The stream registry\<close>

text \<open>
  Claim C9. For every stream id: when the id is absent, \<open>start_stream\<close> returns
  \<open>True\<close>, the registry afterwards has an entry for the id, its keys are the old
  keys and the id, and every other entry is as before; when the id is present,
  \<open>start_stream\<close> returns \<open>False\<close> and the registry is unchanged. When the id is
  present, \<open>stop_stream\<close> returns \<open>True\<close>, the keys afterwards are the old keys
  without the id, and every other entry is as before; when the id is absent,
  \<open>stop_stream\<close> returns \<open>False\<close> and the registry is unchanged.
\<close>

theorem registry_start_stop:
  "(active_streams s sid = None \<longrightarrow>
      fst (start_stream now sid src s) = True
      \<and> active_streams (snd (start_stream now sid src s)) sid
          = Some \<lparr> source = src, start_time = now, status = ''active'' \<rparr>
      \<and> dom (active_streams (snd (start_stream now sid src s))) = insert sid (dom (active_streams s))
      \<and> (\<forall>k. k \<noteq> sid \<longrightarrow> active_streams (snd (start_stream now sid src s)) k = active_streams s k))
   \<and> (active_streams s sid \<noteq> None \<longrightarrow> start_stream now sid src s = (False, s))
   \<and> (active_streams s sid \<noteq> None \<longrightarrow>
      fst (stop_stream sid s) = True
      \<and> dom (active_streams (snd (stop_stream sid s))) = dom (active_streams s) - {sid}
      \<and> (\<forall>k. k \<noteq> sid \<longrightarrow> active_streams (snd (stop_stream sid s)) k = active_streams s k))
   \<and> (active_streams s sid = None \<longrightarrow> stop_stream sid s = (False, s))"
  by (auto simp: start_stream_def stop_stream_def)

theorem registry_start_stop_witness:
  "active_streams reg0 ''cam'' = None
   \<and> start_stream 7 ''cam'' (Some ''default'') reg0 = (True, reg1)
   \<and> stop_stream ''cam'' reg0 = (False, reg0)
   \<and> active_streams reg1 ''cam'' \<noteq> None
   \<and> start_stream 9 ''cam'' None reg1 = (False, reg1)
   \<and> stop_stream ''cam'' reg1 = (True, reg0)
   \<and> dom (active_streams (snd (start_stream 7 ''cam'' (Some ''default'') reg0))) = {''cam''}
   \<and> dom (active_streams (snd (stop_stream ''cam'' reg1))) = {}"
  using registry_start_stop [of reg0 "''cam''" 7 "Some ''default''"]
        registry_start_stop [of reg1 "''cam''" 9 None]
  by (simp add: reg0_def reg1_def start_stream_def stop_stream_def)

section \<open>Batching\<close>

text \<open>
  Claim C1. For every stream and batch size, the frame ids of the batches that
  \<open>batch_process\<close> emits are, batch by batch and in order, the frame ids of the
  groups of frames admitted by its loop (\<open>gather\<close> returns the results in the
  order of the frames, and each \<open>ProcessedFrame\<close> carries the id of its frame);
  when the ids of the input stream are strictly increasing, as they are within a
  source, the ids within every emitted batch are strictly increasing.
\<close>

theorem batch_order_preserved:
  "map (map p_frame_id) (fst (batch_process el xs b))
     = take (length (fst (batch_process el xs b))) (map (map frame_id) (admitted b [] xs))
   \<and> (sorted_wrt (<) (map frame_id xs) \<longrightarrow>
        (\<forall>pb\<in>set (fst (batch_process el xs b)). sorted_wrt (<) (map p_frame_id pb)))"
proof -
  obtain bs err where r: "batch_process el xs b = (bs, err)"
    by (cases "batch_process el xs b")
  then have l: "batch_loop el b [] xs = (bs, err)" by (simp add: batch_process_def)
  have ids: "map (map p_frame_id) bs = take (length bs) (map (map frame_id) (admitted b [] xs))"
    by (rule batch_loop_ids [OF l])
  have "sorted_wrt (<) (map p_frame_id pb)"
    if s: "sorted_wrt (<) (map frame_id xs)" and pb: "pb \<in> set bs" for pb
  proof -
    have "map p_frame_id pb \<in> set (map (map p_frame_id) bs)" using pb by simp
    then have "map p_frame_id pb \<in> set (map (map frame_id) (admitted b [] xs))"
      unfolding ids by (rule in_set_takeD)
    then obtain g where g: "g \<in> set (admitted b [] xs)" and e: "map p_frame_id pb = map frame_id g"
      by auto
    from admitted_sorted [of "[]" xs b] s g have "sorted_wrt (<) (map frame_id g)" by simp
    with e show ?thesis by simp
  qed
  with ids r show ?thesis by simp
qed

theorem batch_order_preserved_witness:
  "sorted_wrt (<) (map frame_id demo_stream)
   \<and> map (map frame_id) (admitted 3 [] demo_stream) = [[0, 2, 4], [6, 8]]
   \<and> map (map p_frame_id) (fst (batch_process (\<lambda>f. 1) demo_stream 3)) = [[0, 2, 4], [6, 8]]
   \<and> list_all (\<lambda>pb. sorted_wrt (<) (map p_frame_id pb))
        (fst (batch_process (\<lambda>f. 1) demo_stream 3))"
proof -
  have s: "sorted_wrt (<) (map frame_id demo_stream)"
    by (simp add: demo_stream_def demo_frame_def)
  have a: "map (map frame_id) (admitted 3 [] demo_stream) = [[0, 2, 4], [6, 8]]"
    by (simp add: demo_stream_def demo_frame_def)
  have n: "length (fst (batch_process (\<lambda>f. 1) demo_stream 3)) = 2"
    by (simp add: batch_process_def demo_stream_def demo_frame_def process_frame_async_def
        cpu_intensive_processing_def)
  from batch_order_preserved [of "\<lambda>f. 1" demo_stream 3] s a n show ?thesis
    by (simp add: list_all_iff)
qed

text \<open>
  Claim C3, as it holds on the code. For a batch size \<open>B > 0\<close> and a stream of
  \<open>N\<close> frames whose payloads all decode as UTF-8, so that no element fails in
  processing, \<open>batch_process\<close> ends without an exception and emits
  \<open>ceil(N/B) = (N + B - 1) div B\<close> batches: \<open>N div B\<close> batches of \<open>B\<close> elements,
  followed by one batch of \<open>N mod B\<close> elements when \<open>B\<close> does not divide \<open>N\<close>. For
  \<open>N = 0\<close> this is no batch.
\<close>

theorem batch_count:
  assumes "0 < b" and "\<forall>f\<in>set xs. utf8_valid (data f)"
  shows "snd (batch_process el xs b) = None
   \<and> length (fst (batch_process el xs b)) = (length xs + nat b - 1) div nat b
   \<and> map length (fst (batch_process el xs b))
       = replicate (length xs div nat b) (nat b)
         @ (if length xs mod nat b = 0 then [] else [length xs mod nat b])"
proof -
  have v: "\<forall>f\<in>set ([] @ xs). utf8_valid (data f)" using assms(2) by simp
  have r: "batch_process el xs b = (map (map (processed_of el)) (admitted b [] xs), None)"
    unfolding batch_process_def by (rule batch_loop_valid [OF v])
  have sz: "map length (admitted b [] xs)
       = replicate (length xs div nat b) (nat b)
         @ (if length xs mod nat b = 0 then [] else [length xs mod nat b])"
    using admitted_sizes [of b "[]" xs] assms(1) by simp
  have "length (admitted b [] xs) = length (map length (admitted b [] xs))" by simp
  also have "\<dots> = length xs div nat b + (if length xs mod nat b = 0 then 0 else 1)"
    unfolding sz by simp
  also have "\<dots> = (length xs + nat b - 1) div nat b"
    using ceil_div [of "nat b" "length xs"] assms(1) by simp
  finally have n: "length (admitted b [] xs) = (length xs + nat b - 1) div nat b" .
  have m: "map length (map (map (processed_of el)) (admitted b [] xs)) = map length (admitted b [] xs)"
    by (simp add: comp_def)
  show ?thesis unfolding r using n m sz by simp
qed

theorem batch_count_witness:
  "(0::int) < 3 \<and> list_all (\<lambda>f. utf8_valid (data f)) demo_stream
   \<and> length demo_stream = 5
   \<and> snd (batch_process (\<lambda>f. 1) demo_stream 3) = None
   \<and> length (fst (batch_process (\<lambda>f. 1) demo_stream 3)) = 2
   \<and> map length (fst (batch_process (\<lambda>f. 1) demo_stream 3)) = [3, 2]"
proof -
  have l: "length demo_stream = 5" by (simp add: demo_stream_def)
  have p: "(0::int) < 3" by simp
  have d: "(5::nat) div nat 3 = Suc 0" by simp
  have m: "(5::nat) mod nat 3 = 2" by simp
  have c: "((5::nat) + nat 3 - 1) div nat 3 = 2" by simp
  from batch_count [OF p demo_valid, of "\<lambda>f. 1"]
  have "snd (batch_process (\<lambda>f. 1) demo_stream 3) = None
    \<and> length (fst (batch_process (\<lambda>f. 1) demo_stream 3)) = 2
    \<and> map length (fst (batch_process (\<lambda>f. 1) demo_stream 3)) = [nat 3, 2]"
    unfolding l d m c by simp
  with l p demo_valid show ?thesis by (simp add: list_all_iff)
qed

text \<open>
  Claim C3 as stated, for \<open>N = 1\<close> and \<open>B = 1\<close>: on a stream of one frame whose
  payload does not decode, \<open>batch_process\<close> emits no batch and ends with
  \<open>UnicodeDecodeError\<close>, where \<open>ceil(1/1)\<close> is 1.
\<close>

theorem batch_count_counterexample:
  "batch_process (\<lambda>f. 1) [bad_frame] 1 = ([], Some UnicodeDecodeError)
   \<and> (length [bad_frame] + nat 1 - 1) div nat 1 = 1"
  by (simp add: batch_process_def bad_frame_def process_frame_async_def
      cpu_intensive_processing_def)

text \<open>
  Claim C10, as it holds on the code. For a batch size \<open>\<le> 0\<close> and a stream whose
  payloads all decode as UTF-8, \<open>batch_process\<close> raises nothing and emits one
  batch per input frame, each holding exactly the one \<open>ProcessedFrame\<close> of that
  frame.
\<close>

theorem batch_nonpositive_size:
  assumes "b \<le> 0" and "\<forall>f\<in>set xs. utf8_valid (data f)"
  shows "snd (batch_process el xs b) = None
   \<and> length (fst (batch_process el xs b)) = length xs
   \<and> (\<forall>pb\<in>set (fst (batch_process el xs b)). length pb = 1)
   \<and> fst (batch_process el xs b) = map (\<lambda>f. [processed_of el f]) xs"
proof -
  have v: "\<forall>f\<in>set ([] @ xs). utf8_valid (data f)" using assms(2) by simp
  have r: "batch_process el xs b = (map (map (processed_of el)) (admitted b [] xs), None)"
    unfolding batch_process_def by (rule batch_loop_valid [OF v])
  show ?thesis unfolding r admitted_nonpos [OF assms(1)] by (auto simp: comp_def)
qed

theorem batch_nonpositive_size_witness:
  "(0::int) \<le> 0 \<and> list_all (\<lambda>f. utf8_valid (data f)) demo_stream \<and> demo_stream \<noteq> []
   \<and> snd (batch_process (\<lambda>f. 1) demo_stream 0) = None
   \<and> map (map p_frame_id) (fst (batch_process (\<lambda>f. 1) demo_stream 0)) = [[0], [2], [4], [6], [8]]"
proof -
  have p: "(0::int) \<le> 0" by simp
  have v: "list_all (\<lambda>f. utf8_valid (data f)) demo_stream"
    using demo_valid by (simp only: list_all_iff)
  have i: "map (map p_frame_id) (map (\<lambda>f. [processed_of (\<lambda>f. 1) f]) demo_stream)
             = [[0], [2], [4], [6], [8]]"
    by (simp add: demo_stream_def demo_frame_def processed_of_def)
  have n: "demo_stream \<noteq> []" by (simp add: demo_stream_def)
  from batch_nonpositive_size [OF p demo_valid, of "\<lambda>f. 1"] v i n p show ?thesis
    by simp
qed

text \<open>
  Claim C10 as stated, for batch size \<open>-2\<close> and a stream of two frames, the
  second with a payload that does not decode: \<open>batch_process\<close> emits the batch of
  the first frame and then ends with \<open>UnicodeDecodeError\<close>.
\<close>

theorem batch_nonpositive_size_counterexample:
  "batch_process (\<lambda>f. 1) [demo_frame 0, bad_frame] (- 2)
     = ([[\<lparr> p_frame_id = 0, processed_data = ''processed_x'', processing_time = 1,
            original_timestamp = 0 \<rparr>]], Some UnicodeDecodeError)"
  by (simp add: batch_process_def bad_frame_def demo_frame_def process_frame_async_def
      cpu_intensive_processing_def)

section \<open>The filter\<close>

text \<open>
  Claim C8. The model of \<open>filter_frames\<close> is a function of the predicate and of
  the frames of the stream, so two runs over the same frames give the same
  frames. Filtering the output again with the same predicate leaves the
  sequence of frame ids as it is, and the output is the sublist of the frames
  that satisfy the predicate, in their order.
\<close>

theorem filter_frames_twice:
  "map frame_id (filter_frames predicate (filter_frames predicate stream))
     = map frame_id (filter_frames predicate stream)
   \<and> filter_frames predicate stream = filter predicate stream"
  by (simp add: filter_frames_filter)

section \<open>Configuration\<close>

text \<open>
  Claim C6, as it holds on the code. A concurrency limit \<open>\<le> 0\<close> makes the
  construction of the stream processor fail with \<open>ValueError\<close>, before any frame
  is produced; a positive limit constructs it. The batch size is checked
  nowhere: whatever the batch size, \<open>batch_process\<close> ends either without an
  exception or with the \<open>UnicodeDecodeError\<close> of a payload, never with a
  configuration error.
\<close>

theorem config_checks:
  "(k \<le> 0 \<longrightarrow> ReactiveVideoStream_init k = Inl ValueError)
   \<and> (0 < k \<longrightarrow> ReactiveVideoStream_init k
                   = Inr \<lparr> max_concurrent_tasks = k, semaphore = nat k, executor = nat k \<rparr>)
   \<and> (snd (batch_process el xs b) = None \<or> snd (batch_process el xs b) = Some UnicodeDecodeError)"
proof -
  obtain bs err where r: "batch_process el xs b = (bs, err)"
    by (cases "batch_process el xs b")
  then have l: "batch_loop el b [] xs = (bs, err)" by (simp add: batch_process_def)
  have "err = None \<or> err = Some UnicodeDecodeError"
  proof (cases err)
    case None
    then show ?thesis by simp
  next
    case (Some e)
    with l batch_loop_error show ?thesis by blast
  qed
  with r show ?thesis by (simp add: ReactiveVideoStream_init_def)
qed

theorem config_checks_witness:
  "ReactiveVideoStream_init 0 = Inl ValueError
   \<and> ReactiveVideoStream_init (- 3) = Inl ValueError
   \<and> ReactiveVideoStream_init 20 = Inr \<lparr> max_concurrent_tasks = 20, semaphore = 20, executor = 20 \<rparr>
   \<and> snd (batch_process (\<lambda>f. 1) [bad_frame] 0) = Some UnicodeDecodeError"
proof -
  have "snd (batch_process (\<lambda>f. 1) [bad_frame] 0) \<noteq> None"
    by (simp add: batch_process_def bad_frame_def process_frame_async_def
        cpu_intensive_processing_def)
  with config_checks [of 0 "\<lambda>f. 1" "[bad_frame]" 0] config_checks [of "- 3" "\<lambda>f. 1" "[bad_frame]" 0]
    config_checks [of 20 "\<lambda>f. 1" "[bad_frame]" 0]
  show ?thesis by simp
qed

text \<open>
  Claim C6 as stated, at batch size 0: \<open>batch_process\<close> on a stream of one frame
  emits one batch and raises nothing.
\<close>

theorem batch_size_zero_counterexample:
  "batch_process (\<lambda>f. 1) [demo_frame 0] 0
     = ([[\<lparr> p_frame_id = 0, processed_data = ''processed_x'', processing_time = 1,
            original_timestamp = 0 \<rparr>]], None)"
  by (simp add: batch_process_def demo_frame_def process_frame_async_def
      cpu_intensive_processing_def)

section \<open>Supervisor and coordinator\<close>







section \<open>Bounded concurrency\<close>

text \<open>
  Claim C2. Take a stream processor constructed with the maximum \<open>K\<close>, and any
  run on it of calls of \<open>process_frame_async\<close>, made for any frames of any
  sources and interleaved in any way. In every state of the run the calls whose
  job is running in the thread pool number at most \<open>K\<close>: a call starts its job
  only after it has acquired the semaphore and releases the semaphore only
  after the job has ended, and the semaphore starts with \<open>K\<close> permits. The
  pipeline has one stream processor, constructed with the maximum 20, on which
  the supervisors of all its sources make their calls; so the bound of a
  pipeline run is 20 over all sources together.
\<close>

theorem shared_concurrency_bound:
  "(ReactiveVideoStream_init k = Inr sp \<longrightarrow> run_schedule es (start sp) = Some s \<longrightarrow>
      int (executing s) \<le> k)
   \<and> (VideoProcessingPipeline_init = Inr p \<longrightarrow>
        run_schedule es (start (stream_processor p)) = Some s \<longrightarrow> executing s \<le> 20)"
proof (intro conjI impI)
  assume "ReactiveVideoStream_init k = Inr sp" and "run_schedule es (start sp) = Some s"
  then show "int (executing s) \<le> k" by (rule concurrency_bound)
next
  assume p: "VideoProcessingPipeline_init = Inr p"
    and r: "run_schedule es (start (stream_processor p)) = Some s"
  from p have "ReactiveVideoStream_init 20 = Inr (stream_processor p)"
    by (auto simp: VideoProcessingPipeline_init_def split: sum.splits)
  from concurrency_bound [OF this r] show "executing s \<le> 20" by simp
qed

theorem shared_concurrency_bound_witness:
  "ReactiveVideoStream_init 1 = Inr sp1
   \<and> run_schedule demo_schedule (start sp1)
       = Some \<lparr> sem_value = 0,
                calls = [new_call ''video_source_0'' (demo_frame 0),
                         \<lparr> caller = ''video_source_1'', arg = demo_frame 2,
                           rest = [RunInExecutor, SemRelease], in_executor = True,
                           job = None \<rparr>] \<rparr>
   \<and> executing \<lparr> sem_value = 0,
                calls = [new_call ''video_source_0'' (demo_frame 0),
                         \<lparr> caller = ''video_source_1'', arg = demo_frame 2,
                           rest = [RunInExecutor, SemRelease], in_executor = True,
                           job = None \<rparr>] \<rparr> = 1
   \<and> run_schedule (demo_schedule @ [Advance 0]) (start sp1) = None
   \<and> VideoProcessingPipeline_init = Inr p0
   \<and> run_schedule demo_schedule (start (stream_processor p0))
       = Some \<lparr> sem_value = 19,
                calls = [new_call ''video_source_0'' (demo_frame 0),
                         \<lparr> caller = ''video_source_1'', arg = demo_frame 2,
                           rest = [RunInExecutor, SemRelease], in_executor = True,
                           job = None \<rparr>] \<rparr>"
proof -
  have i: "ReactiveVideoStream_init 1 = Inr sp1"
    by (simp add: ReactiveVideoStream_init_def sp1_def)
  have r: "run_schedule demo_schedule (start sp1)
       = Some \<lparr> sem_value = 0,
                calls = [new_call ''video_source_0'' (demo_frame 0),
                         \<lparr> caller = ''video_source_1'', arg = demo_frame 2,
                           rest = [RunInExecutor, SemRelease], in_executor = True,
                           job = None \<rparr>] \<rparr>"
    by (simp add: demo_schedule_def start_def sp1_def new_call_def process_frame_async_body_def)
  have n: "run_schedule (demo_schedule @ [Advance 0]) (start sp1) = None"
    by (simp add: demo_schedule_def start_def sp1_def new_call_def process_frame_async_body_def)
  have e: "executing \<lparr> sem_value = 0,
                calls = [new_call ''video_source_0'' (demo_frame 0),
                         \<lparr> caller = ''video_source_1'', arg = demo_frame 2,
                           rest = [RunInExecutor, SemRelease], in_executor = True,
                           job = None \<rparr>] \<rparr> = 1"
    by (simp add: executing_def new_call_def)
  have q: "VideoProcessingPipeline_init = Inr p0" by (rule init_p0)
  have t: "run_schedule demo_schedule (start (stream_processor p0))
       = Some \<lparr> sem_value = 19,
                calls = [new_call ''video_source_0'' (demo_frame 0),
                         \<lparr> caller = ''video_source_1'', arg = demo_frame 2,
                           rest = [RunInExecutor, SemRelease], in_executor = True,
                           job = None \<rparr>] \<rparr>"
    by (simp add: demo_schedule_def start_def p0_def new_call_def process_frame_async_body_def)
  from shared_concurrency_bound [of 1 sp1 demo_schedule _ p0] i r n e q t show ?thesis by simp
qed

end
